theory Spec2Isabelle
  imports Main
begin

section \<open>The DOE content template bot\<close>

text \<open>
  A shallow embedding of \<^verbatim>\<open>add_doe_content_template.py\<close>. Python strings are
  modelled as lists of characters with code points below 256; a page is a list of
  lines; the wiki is an explicit state that maps a title to its text and logs every
  save.
\<close>

subsection \<open>Constants\<close>

definition PAGES_TO_GO_THROUGH :: nat where
  "PAGES_TO_GO_THROUGH = 25"

definition STORAGE_PAGE :: string where
  "STORAGE_PAGE = ''File:AddDOEContentTemplate''"

definition TEMPLATE_STR :: string where
  "TEMPLATE_STR = ''{{DOE content needed}}''"

definition doe_titles :: "string set" where
  "doe_titles = {''topic at doe'', ''doe relevance''}"

subsection \<open>String operations of the Python runtime\<close>

text \<open>
  \<^verbatim>\<open>str.strip()\<close> removes the characters for which \<^verbatim>\<open>str.isspace()\<close> holds; below
  code point 256 these are 9 to 13, 28 to 32, 133 and 160.
\<close>

definition is_space :: "char \<Rightarrow> bool" where
  "is_space c =
     (let n = (of_char c :: nat)
      in (9 \<le> n \<and> n \<le> 13) \<or> (28 \<le> n \<and> n \<le> 32) \<or> n = 133 \<or> n = 160)"

definition strip :: "string \<Rightarrow> string" where
  "strip s = rev (dropWhile is_space (rev (dropWhile is_space s)))"

text \<open>
  \<^verbatim>\<open>str.lower()\<close> below code point 256: the ASCII capitals and the Latin-1 capitals
  (192 to 222 without the multiplication sign 215) move up by 32.
\<close>

definition lower_char :: "char \<Rightarrow> char" where
  "lower_char c =
     (let n = (of_char c :: nat)
      in if (65 \<le> n \<and> n \<le> 90) \<or> (192 \<le> n \<and> n \<le> 222 \<and> n \<noteq> 215)
         then char_of (n + 32) else c)"

definition lower :: "string \<Rightarrow> string" where
  "lower s = map lower_char s"

text \<open>\<^verbatim>\<open>s[lv:-lv]\<close> for a non-negative \<open>lv\<close>; \<^verbatim>\<open>s[0:-0]\<close> is \<^verbatim>\<open>s[0:0]\<close>, the empty string.\<close>

definition slice_between :: "string \<Rightarrow> nat \<Rightarrow> string" where
  "slice_between s lv = (if lv = 0 then [] else drop lv (take (length s - lv) s))"

text \<open>\<^verbatim>\<open>text.split('\n')\<close> and \<^verbatim>\<open>'\n'.join(lines)\<close>.\<close>

fun split_nl :: "string \<Rightarrow> string list" where
  "split_nl [] = [[]]"
| "split_nl (c # cs) =
     (if c = CHR 0x0A then [] # split_nl cs
      else (case split_nl cs of
              [] \<Rightarrow> [[c]]
            | l # ls \<Rightarrow> (c # l) # ls))"

fun join_nl :: "string list \<Rightarrow> string" where
  "join_nl [] = []"
| "join_nl [l] = l"
| "join_nl (l # ls) = l @ CHR 0x0A # join_nl ls"

text \<open>\<^verbatim>\<open>list.insert(i, x)\<close> for a non-negative \<open>i\<close>: beyond the end it appends.\<close>

definition list_insert :: "'a list \<Rightarrow> nat \<Rightarrow> 'a \<Rightarrow> 'a list" where
  "list_insert xs i x = take i xs @ x # drop i xs"

subsection \<open>The title pattern\<close>

text \<open>
  \<^verbatim>\<open>title_search = re.compile(r"^(=+)([^=]*)(=+)[ ]?$")\<close>, used through
  \<^verbatim>\<open>search\<close>. Without the multi-line flag \<^verbatim>\<open>^\<close> holds at position 0 only, so the
  search succeeds only at the start, and \<^verbatim>\<open>$\<close> holds at the end of the string and
  just before a line feed that ends it. The matcher below backtracks in the order of
  the regex engine: each greedy part takes the longest run first and gives back one
  character at a time.
\<close>

definition is_eq :: "char \<Rightarrow> bool" where
  "is_eq c \<longleftrightarrow> c = CHR ''=''"

definition not_eq :: "char \<Rightarrow> bool" where
  "not_eq c \<longleftrightarrow> c \<noteq> CHR ''=''"

definition at_dollar :: "string \<Rightarrow> bool" where
  "at_dollar r \<longleftrightarrow> r = [] \<or> r = [CHR 0x0A]"

text \<open>\<^verbatim>\<open>[ ]?$\<close>: the number of characters consumed, if it matches.\<close>

definition match_tail :: "string \<Rightarrow> nat option" where
  "match_tail r =
     (if r \<noteq> [] \<and> hd r = CHR '' '' \<and> at_dollar (tl r) then Some 1
      else if at_dollar r then Some 0
      else None)"

text \<open>\<^verbatim>\<open>(=+)[ ]?$\<close> with at most \<open>k\<close> characters in the group.\<close>

fun match_g3 :: "nat \<Rightarrow> string \<Rightarrow> (nat \<times> nat) option" where
  "match_g3 0 r = None"
| "match_g3 (Suc k) r =
     (case match_tail (drop (Suc k) r) of
        Some s \<Rightarrow> Some (Suc k, s)
      | None \<Rightarrow> match_g3 k r)"

text \<open>\<^verbatim>\<open>([^=]*)(=+)[ ]?$\<close> with at most \<open>j\<close> characters in the first group.\<close>

fun match_g2 :: "nat \<Rightarrow> string \<Rightarrow> (nat \<times> nat \<times> nat) option" where
  "match_g2 0 r =
     (case match_g3 (length (takeWhile is_eq r)) r of
        Some (k, s) \<Rightarrow> Some (0, k, s)
      | None \<Rightarrow> None)"
| "match_g2 (Suc j) r =
     (case match_g3 (length (takeWhile is_eq (drop (Suc j) r))) (drop (Suc j) r) of
        Some (k, s) \<Rightarrow> Some (Suc j, k, s)
      | None \<Rightarrow> match_g2 j r)"

text \<open>\<^verbatim>\<open>(=+)([^=]*)(=+)[ ]?$\<close> with at most \<open>i\<close> characters in the first group.\<close>

fun match_g1 :: "nat \<Rightarrow> string \<Rightarrow> (nat \<times> nat \<times> nat \<times> nat) option" where
  "match_g1 0 r = None"
| "match_g1 (Suc i) r =
     (case match_g2 (length (takeWhile not_eq (drop (Suc i) r))) (drop (Suc i) r) of
        Some (j, k, s) \<Rightarrow> Some (Suc i, j, k, s)
      | None \<Rightarrow> match_g1 i r)"

record match =
  group0 :: string
  group1 :: string
  group2 :: string
  group3 :: string

definition title_search :: "string \<Rightarrow> match option" where
  "title_search line =
     (case match_g1 (length (takeWhile is_eq line)) line of
        None \<Rightarrow> None
      | Some (i, j, k, s) \<Rightarrow>
          Some \<lparr>group0 = take (i + j + k + s) line,
                group1 = take i line,
                group2 = take j (drop i line),
                group3 = take k (drop (i + j) line)\<rparr>)"

subsection \<open>Header detection\<close>

definition detect_general_title :: "string \<Rightarrow> bool" where
  "detect_general_title line \<longleftrightarrow> title_search line \<noteq> None"

definition true_name :: "match \<Rightarrow> string" where
  "true_name m =
     (let start_level = length (group1 m);
          end_level = length (group3 m);
          true_level = min start_level end_level
      in lower (strip (slice_between (group0 m) true_level)))"

definition detect_doe_header :: "string \<Rightarrow> bool" where
  "detect_doe_header line =
     (case title_search line of
        None \<Rightarrow> False
      | Some m \<Rightarrow> true_name m \<in> doe_titles)"

subsection \<open>The section scanner\<close>

record scan_state =
  in_doe_header :: bool
  this_section_has_content :: bool
  lines_to_insert :: "nat list"

definition scan_init :: scan_state where
  "scan_init = \<lparr>in_doe_header = False, this_section_has_content = False,
                 lines_to_insert = []\<rparr>"

text \<open>One turn of the loop over \<^verbatim>\<open>enumerate(page_lines)\<close>.\<close>

definition scan_step :: "nat \<times> string \<Rightarrow> scan_state \<Rightarrow> scan_state" where
  "scan_step p st =
     (let line_no = fst p; line = snd p
      in if \<not> in_doe_header st then
           (if detect_doe_header line
            then st\<lparr>in_doe_header := True, this_section_has_content := False\<rparr>
            else st)
         else if detect_general_title line then
           (let st1 = (if \<not> this_section_has_content st
                       then st\<lparr>lines_to_insert := lines_to_insert st @ [line_no]\<rparr>
                       else st)
            in if detect_doe_header line
               then st1\<lparr>in_doe_header := True, this_section_has_content := False\<rparr>
               else st1)
         else if length (strip line) > 0
           then st\<lparr>this_section_has_content := True\<rparr>
           else st)"

definition scan_from :: "nat \<Rightarrow> string list \<Rightarrow> scan_state \<Rightarrow> scan_state" where
  "scan_from n page_lines st = fold scan_step (enumerate n page_lines) st"

definition scan_lines :: "string list \<Rightarrow> scan_state" where
  "scan_lines page_lines = scan_from 0 page_lines scan_init"

definition insertion_points :: "string list \<Rightarrow> nat list" where
  "insertion_points page_lines = lines_to_insert (scan_lines page_lines)"

subsection \<open>Applying the insertions\<close>

fun insert_templates :: "string list \<Rightarrow> nat list \<Rightarrow> nat \<Rightarrow> string list" where
  "insert_templates page_lines [] templates_inserted = page_lines"
| "insert_templates page_lines (line_no # rest) templates_inserted =
     insert_templates (list_insert page_lines (line_no + templates_inserted) TEMPLATE_STR)
       rest (Suc templates_inserted)"

subsection \<open>The wiki and the bot\<close>

record wiki =
  page_text :: "string \<Rightarrow> string"
  save_log :: "(string \<times> string \<times> string) list"

definition save :: "string \<Rightarrow> string \<Rightarrow> string \<Rightarrow> wiki \<Rightarrow> wiki" where
  "save title new_text comment w =
     w\<lparr>page_text := (page_text w)(title := new_text),
       save_log := save_log w @ [(title, new_text, comment)]\<rparr>"

definition get_page_text :: "wiki \<Rightarrow> string \<Rightarrow> string list" where
  "get_page_text w page_name = split_nl (page_text w page_name)"

definition get_page_start :: "string \<Rightarrow> wiki \<Rightarrow> string" where
  "get_page_start reference_page_title w =
     (case split_nl (page_text w reference_page_title) of
        [] \<Rightarrow> []
      | l # ls \<Rightarrow> l)"

definition set_page_start :: "string \<Rightarrow> string \<Rightarrow> wiki \<Rightarrow> wiki" where
  "set_page_start reference_page_title new_start w =
     save reference_page_title new_start ''Store new page from last execution.'' w"

definition main_function :: "string \<Rightarrow> wiki \<Rightarrow> wiki" where
  "main_function page_title w =
     (let page_lines = get_page_text w page_title;
          plan = insertion_points page_lines
      in if plan \<noteq> []
         then save page_title (join_nl (insert_templates page_lines plan 0))
                ''Inserted the DOE content needed template.'' w
         else w)"

text \<open>
  The loop of \<^verbatim>\<open>run\<close> over the listed pages: it threads the last title seen and the
  wiki.
\<close>

definition run_step :: "string \<Rightarrow> string \<times> wiki \<Rightarrow> string \<times> wiki" where
  "run_step title p = (title, main_function title (snd p))"

text \<open>
  \<^verbatim>\<open>pages_from\<close> asks the remote listing service; its answer, the list of titles for
  a start title, is the parameter \<open>pages_from\<close>.
\<close>

definition run :: "(string \<Rightarrow> string list) \<Rightarrow> string \<Rightarrow> wiki \<Rightarrow> wiki" where
  "run pages_from reference_page_title w =
     (let start_page_title = get_page_start reference_page_title w;
          pages_to_run = pages_from start_page_title;
          p = fold run_step pages_to_run ([], w);
          last_page_seen = fst p
      in if length pages_to_run < PAGES_TO_GO_THROUGH
         then set_page_start reference_page_title [] (snd p)
         else set_page_start reference_page_title last_page_seen (snd p))"

subsection \<open>The insertion procedure in the words of the specification\<close>

text \<open>
  The specification describes a second procedure: insert into a copy of the original
  sequence, from the lowest index to the highest, reading the current length of the
  copy before each insertion. The shift of an index is what the copy has grown by.
\<close>

definition insert_rereading_step :: "string list \<Rightarrow> nat \<Rightarrow> string list \<Rightarrow> string list" where
  "insert_rereading_step original idx copy =
     list_insert copy (idx + (length copy - length original)) TEMPLATE_STR"

definition insert_rereading :: "string list \<Rightarrow> nat list \<Rightarrow> string list" where
  "insert_rereading original plan =
     fold (insert_rereading_step original) (sort plan) original"

subsection \<open>The invariant of the scanner\<close>

text \<open>
  What holds of the state after the lines \<open>ls\<close> have been scanned: the recorded indices are
  strictly increasing, each is at least 1, below the number of lines and the index of a
  title line, and the section state is entered only after a line has been read.
\<close>

definition scan_inv :: "string list \<Rightarrow> scan_state \<Rightarrow> bool" where
  "scan_inv ls st \<longleftrightarrow>
     sorted_wrt (<) (lines_to_insert st)
     \<and> (\<forall>i\<in>set (lines_to_insert st). 1 \<le> i \<and> i < length ls \<and> detect_general_title (ls ! i))
     \<and> (in_doe_header st \<longrightarrow> ls \<noteq> [])"

section \<open>Properties\<close>

subsection \<open>Worked examples\<close>

text \<open>
  C6. On the lines \<^verbatim>\<open>["== Topic at DOE ==", "", "== See Also =="]\<close> the scanner reports
  exactly one insertion point, index 2, the line \<^verbatim>\<open>"== See Also =="\<close>, and applying it
  gives \<^verbatim>\<open>["== Topic at DOE ==", "", "{{DOE content needed}}", "== See Also =="]\<close>.
\<close>

theorem end_to_end_example:
  "insertion_points [''== Topic at DOE =='', '''', ''== See Also ==''] = [2]
   \<and> [''== Topic at DOE =='', '''', ''== See Also ==''] ! 2 = ''== See Also ==''
   \<and> insert_templates [''== Topic at DOE =='', '''', ''== See Also =='']
        (insertion_points [''== Topic at DOE =='', '''', ''== See Also =='']) 0
      = [''== Topic at DOE =='', '''', ''{{DOE content needed}}'', ''== See Also =='']"
  by code_simp

text \<open>
  C1. The claim: a header that is not a recognized DOE header ends the section state,
  so that no later line gives an insertion point until a recognized DOE header comes
  again. The loop never resets \<open>in_doe_header\<close>: after \<^verbatim>\<open>"== Topic at DOE =="\<close> and
  \<^verbatim>\<open>"== See Also =="\<close> the scanner is still in the section state, and the next header,
  \<^verbatim>\<open>"== References =="\<close>, gives a second insertion point, under a section that is not
  a DOE section.
\<close>

theorem non_doe_header_keeps_section_state:
  "detect_doe_header ''== Topic at DOE ==''
   \<and> detect_general_title ''== See Also =='' \<and> \<not> detect_doe_header ''== See Also ==''
   \<and> detect_general_title ''== References =='' \<and> \<not> detect_doe_header ''== References ==''
   \<and> in_doe_header (scan_lines [''== Topic at DOE =='', ''== See Also ==''])
   \<and> insertion_points [''== Topic at DOE =='', ''== See Also =='', ''== References ==''] = [1, 2]"
  by code_simp

text \<open>
  C2. The claim: the header name is the text between the first and the last \<open>level\<close>
  characters of the match, stripped and lower-cased, and \<^verbatim>\<open>"== Topic at DOE == "\<close>, with
  a space at the end, is a recognized DOE header. The pattern accepts the line, but the
  match keeps the space, so that the slice keeps one \<^verbatim>\<open>=\<close>: the name is
  \<^verbatim>\<open>"topic at doe ="\<close> and the line is not recognized.
\<close>

theorem trailing_space_header_not_recognized:
  "detect_general_title ''== Topic at DOE == ''
   \<and> map_option true_name (title_search ''== Topic at DOE == '') = Some ''topic at doe =''
   \<and> \<not> detect_doe_header ''== Topic at DOE == ''
   \<and> detect_doe_header ''== Topic at DOE ==''"
  by code_simp

subsection \<open>The scanner, line by line\<close>

lemma scan_from_Nil: "scan_from n [] st = st"
  by (simp add: scan_from_def)

lemma scan_from_Cons: "scan_from n (l # ls) st = scan_from (Suc n) ls (scan_step (n, l) st)"
  by (simp add: scan_from_def)

lemma scan_from_append:
  "scan_from n (xs @ ys) st = scan_from (n + length xs) ys (scan_from n xs st)"
  by (induction xs arbitrary: n st) (simp_all add: scan_from_Nil scan_from_Cons)

lemma scan_lines_append: "scan_lines (xs @ ys) = scan_from (length xs) ys (scan_lines xs)"
  by (simp add: scan_lines_def scan_from_append)

lemma scan_lines_snoc: "scan_lines (ls @ [l]) = scan_step (length ls, l) (scan_lines ls)"
  by (simp add: scan_lines_append scan_from_Cons scan_from_Nil)

lemma scan_lines_Nil: "scan_lines [] = scan_init"
  by (simp add: scan_lines_def scan_from_Nil)

lemma title_starts_with_eq:
  assumes "detect_general_title line"
  shows "line \<noteq> [] \<and> hd line = CHR ''=''"
proof -
  have "takeWhile is_eq line \<noteq> []"
  proof
    assume "takeWhile is_eq line = []"
    then have "title_search line = None" by (simp add: title_search_def)
    with assms show False by (simp add: detect_general_title_def)
  qed
  then show ?thesis
    by (cases line) (auto simp: is_eq_def split: if_splits)
qed

lemma doe_is_title: "detect_doe_header l \<Longrightarrow> detect_general_title l"
  by (auto simp: detect_doe_header_def detect_general_title_def split: option.splits)

lemma strip_empty_all_space:
  assumes "strip b = []"
  shows "\<forall>c\<in>set b. is_space c"
proof -
  from assms have "dropWhile is_space (rev (dropWhile is_space b)) = []"
    by (simp add: strip_def)
  then have a: "\<forall>c\<in>set (dropWhile is_space b). is_space c"
    by (simp add: dropWhile_eq_Nil_conv)
  have "dropWhile is_space b = []"
  proof (cases "dropWhile is_space b")
    case Nil then show ?thesis .
  next
    case (Cons c cs)
    then have "\<not> is_space c" by (metis hd_dropWhile list.sel(1) list.distinct(1))
    with a Cons show ?thesis by simp
  qed
  then show ?thesis by (simp add: dropWhile_eq_Nil_conv)
qed

lemma eq_not_space: "\<not> is_space CHR ''=''"
  by (simp add: is_space_def)

lemma blank_not_title:
  assumes "strip b = []" shows "\<not> detect_general_title b"
proof
  assume "detect_general_title b"
  then have "b \<noteq> []" "hd b = CHR ''=''" using title_starts_with_eq by auto
  then have "CHR ''='' \<in> set b" by (cases b) auto
  with strip_empty_all_space[OF assms] eq_not_space show False by blast
qed

lemma scan_inv_step:
  assumes "scan_inv ls st"
  shows "scan_inv (ls @ [l]) (scan_step (length ls, l) st)"
proof -
  have old: "\<forall>i\<in>set (lines_to_insert st). 1 \<le> i \<and> i < length (ls @ [l]) \<and> detect_general_title ((ls @ [l]) ! i)"
    using assms by (auto simp: scan_inv_def nth_append)
  have srt: "sorted_wrt (<) (lines_to_insert st)" using assms by (simp add: scan_inv_def)
  have new: "in_doe_header st \<Longrightarrow> detect_general_title l \<Longrightarrow>
      sorted_wrt (<) (lines_to_insert st @ [length ls]) \<and> 1 \<le> length ls"
    using assms by (auto simp: scan_inv_def sorted_wrt_append Suc_le_eq)
  show ?thesis
    unfolding scan_inv_def scan_step_def Let_def
    using old srt new by (auto simp: nth_append)
qed

lemma scan_inv_scan_lines: "scan_inv ls (scan_lines ls)"
proof (induction ls rule: rev_induct)
  case Nil
  show ?case by (simp add: scan_lines_Nil scan_init_def scan_inv_def)
next
  case (snoc l ls)
  then show ?case by (simp add: scan_lines_snoc scan_inv_step)
qed

lemma scan_step_no_title:
  assumes "\<not> detect_general_title l"
  shows "lines_to_insert (scan_step (n, l) st) = lines_to_insert st
         \<and> in_doe_header (scan_step (n, l) st) = in_doe_header st"
  using assms doe_is_title [of l] by (auto simp: scan_step_def Let_def)

lemma scan_from_no_titles:
  assumes "\<forall>l\<in>set cs. \<not> detect_general_title l"
  shows "lines_to_insert (scan_from n cs st) = lines_to_insert st
         \<and> in_doe_header (scan_from n cs st) = in_doe_header st"
  using assms
proof (induction cs arbitrary: n st)
  case Nil
  show ?case by (simp add: scan_from_Nil)
next
  case (Cons c cs)
  then show ?case by (simp add: scan_from_Cons scan_step_no_title)
qed

lemma scan_step_blank:
  assumes "strip b = []"
  shows "scan_step (n, b) st = st"
  using assms blank_not_title [OF assms] doe_is_title [of b]
  by (auto simp: scan_step_def Let_def)

lemma scan_from_blank:
  assumes "\<forall>b\<in>set bs. strip b = []"
  shows "scan_from n bs st = st"
  using assms
proof (induction bs arbitrary: n)
  case Nil
  show ?case by (simp add: scan_from_Nil)
next
  case (Cons b bs)
  then show ?case by (simp add: scan_from_Cons scan_step_blank)
qed

lemma scan_step_doe:
  assumes "detect_doe_header d"
  shows "in_doe_header (scan_step (n, d) st) \<and> \<not> this_section_has_content (scan_step (n, d) st)"
  using assms doe_is_title [OF assms] by (auto simp: scan_step_def Let_def)

lemma scan_step_doe_empty_section:
  assumes "detect_doe_header d" "in_doe_header st" "\<not> this_section_has_content st"
  shows "lines_to_insert (scan_step (n, d) st) = lines_to_insert st @ [n]"
  using assms doe_is_title [of d] by (auto simp: scan_step_def Let_def)

lemma scan_step_title_empty_section:
  assumes "detect_general_title h" "in_doe_header st" "\<not> this_section_has_content st"
  shows "lines_to_insert (scan_step (n, h) st) = lines_to_insert st @ [n]"
  using assms by (auto simp: scan_step_def Let_def)

subsection \<open>Insertion points\<close>

text \<open>
  C10. For every line sequence the insertion indices of the scan are strictly
  increasing, each index is at least 1 (the first line is never an insertion point),
  and each index is that of a line of the page that matches the title pattern.
\<close>

theorem insertion_points_invariant:
  "sorted_wrt (<) (insertion_points ls)
   \<and> (\<forall>i\<in>set (insertion_points ls). 1 \<le> i \<and> i < length ls \<and> detect_general_title (ls ! i))"
  using scan_inv_scan_lines [of ls] by (simp add: scan_inv_def insertion_points_def)

theorem insertion_points_invariant_witness:
  "insertion_points [''== Topic at DOE =='', ''== DOE relevance =='', ''== See Also ==''] = [1, 2]
   \<and> sorted_wrt (<) [1, 2 :: nat]
   \<and> detect_general_title ''== DOE relevance ==''
   \<and> detect_general_title ''== See Also ==''"
proof -
  have e: "insertion_points [''== Topic at DOE =='', ''== DOE relevance =='', ''== See Also ==''] = [1, 2]"
    by code_simp
  show ?thesis
    using insertion_points_invariant [of "[''== Topic at DOE =='', ''== DOE relevance =='', ''== See Also =='']"]
    unfolding e by simp
qed

text \<open>
  C8. A page that ends inside a recognized DOE section with no content: the lines are
  \<open>pre\<close>, then a recognized DOE header \<open>d\<close>, then only blank lines \<open>bs\<close>. The scanner
  ends in the section state with no content seen, the insertion points are those of
  \<open>pre @ [d]\<close>, and none lies beyond the header \<open>d\<close>: the end of the input records
  nothing for the trailing section.
\<close>

theorem trailing_empty_section_gets_no_insertion:
  assumes "detect_doe_header d" and "\<forall>b\<in>set bs. strip b = []"
  shows "in_doe_header (scan_lines (pre @ d # bs))
         \<and> \<not> this_section_has_content (scan_lines (pre @ d # bs))
         \<and> insertion_points (pre @ d # bs) = insertion_points (pre @ [d])
         \<and> (\<forall>i\<in>set (insertion_points (pre @ d # bs)). i \<le> length pre)"
proof -
  have split: "scan_lines (pre @ d # bs) = scan_lines (pre @ [d])"
  proof -
    have "scan_lines (pre @ d # bs) = scan_lines ((pre @ [d]) @ bs)" by simp
    also have "\<dots> = scan_from (length (pre @ [d])) bs (scan_lines (pre @ [d]))"
      by (rule scan_lines_append)
    also have "\<dots> = scan_lines (pre @ [d])"
      using assms(2) by (rule scan_from_blank)
    finally show ?thesis .
  qed
  have st: "in_doe_header (scan_lines (pre @ [d])) \<and> \<not> this_section_has_content (scan_lines (pre @ [d]))"
    using scan_step_doe [OF assms(1)] by (simp add: scan_lines_snoc)
  have "\<forall>i\<in>set (lines_to_insert (scan_lines (pre @ [d]))). i < length (pre @ [d])"
    using scan_inv_scan_lines [of "pre @ [d]"] unfolding scan_inv_def by blast
  then have bound: "\<forall>i\<in>set (lines_to_insert (scan_lines (pre @ [d]))). i \<le> length pre"
    by auto
  show ?thesis
    using split st bound by (simp add: insertion_points_def)
qed

theorem trailing_empty_section_gets_no_insertion_witness:
  "detect_doe_header ''== DOE relevance ==''
   \<and> strip '''' = [] \<and> strip ''  '' = []
   \<and> in_doe_header (scan_lines ([''== Topic at DOE ==''] @ ''== DOE relevance =='' # ['''', ''  '']))
   \<and> insertion_points ([''== Topic at DOE ==''] @ ''== DOE relevance =='' # ['''', ''  '']) = [1]"
proof -
  have d: "detect_doe_header ''== DOE relevance ==''" by code_simp
  have b: "\<forall>b\<in>set ['''', ''  '']. strip b = []" by code_simp
  have e: "insertion_points ([''== Topic at DOE ==''] @ [''== DOE relevance ==''])  = [1]" by code_simp
  have b': "strip '''' = [] \<and> strip ''  '' = []" using b by simp
  show ?thesis
    using trailing_empty_section_gets_no_insertion [OF d b, of "[''== Topic at DOE =='']"] d b' e
    by simp
qed

text \<open>
  C7. Two consecutive empty DOE sections: a recognized DOE header, at once a second
  one, then a third header line, then content (lines that are not headers). The scanner
  reports exactly the two insertion points 1 and 2, the indices of the headers that
  close the two sections.
\<close>

theorem two_consecutive_empty_sections:
  assumes "detect_doe_header d1" and "detect_doe_header d2"
    and "detect_general_title h3" and "\<forall>c\<in>set cs. \<not> detect_general_title c"
  shows "insertion_points (d1 # d2 # h3 # cs) = [1, 2]"
proof -
  let ?s1 = "scan_step (0, d1) scan_init"
  let ?s2 = "scan_step (Suc 0, d2) ?s1"
  let ?s3 = "scan_step (2, h3) ?s2"
  have s1: "in_doe_header ?s1" "\<not> this_section_has_content ?s1" "lines_to_insert ?s1 = []"
    using assms(1) by (simp_all add: scan_step_def scan_init_def)
  have s2: "in_doe_header ?s2" "\<not> this_section_has_content ?s2" "lines_to_insert ?s2 = [1]"
    using scan_step_doe [OF assms(2), of "Suc 0" ?s1]
      scan_step_doe_empty_section [OF assms(2) s1(1) s1(2), of "Suc 0"] s1(3)
    by simp_all
  have s3: "lines_to_insert ?s3 = [1, 2]"
    using scan_step_title_empty_section [OF assms(3) s2(1) s2(2), of 2] s2(3) by simp
  have "scan_lines (d1 # d2 # h3 # cs) = scan_from 3 cs ?s3"
    by (simp add: scan_lines_def scan_from_Cons numeral_3_eq_3 numeral_2_eq_2)
  then show ?thesis
    using scan_from_no_titles [OF assms(4), of 3 ?s3] s3 by (simp add: insertion_points_def)
qed

theorem two_consecutive_empty_sections_witness:
  "detect_doe_header ''== Topic at DOE =='' \<and> detect_doe_header ''== DOE relevance ==''
   \<and> detect_general_title ''== See Also ==''
   \<and> \<not> detect_general_title ''Some text'' \<and> \<not> detect_general_title ''''
   \<and> insertion_points
        (''== Topic at DOE =='' # ''== DOE relevance =='' # ''== See Also =='' # [''Some text'', ''''])
      = [1, 2]"
proof -
  have d1: "detect_doe_header ''== Topic at DOE ==''" by code_simp
  have d2: "detect_doe_header ''== DOE relevance ==''" by code_simp
  have h3: "detect_general_title ''== See Also ==''" by code_simp
  have cs: "\<forall>c\<in>set [''Some text'', '''']. \<not> detect_general_title c" by code_simp
  have cs': "\<not> detect_general_title ''Some text'' \<and> \<not> detect_general_title ''''"
    using cs by simp
  show ?thesis
    using two_consecutive_empty_sections [OF d1 d2 h3 cs] d1 d2 h3 cs' by simp
qed

subsection \<open>Applying the insertion plan\<close>

lemma length_list_insert: "length (list_insert xs i x) = Suc (length xs)"
  by (simp add: list_insert_def)

lemma insert_templates_fold:
  assumes "length cur = length original + k"
  shows "insert_templates cur plan k = fold (insert_rereading_step original) plan cur"
  using assms
proof (induction plan arbitrary: cur k)
  case Nil
  show ?case by simp
next
  case (Cons idx rest)
  have step: "insert_rereading_step original idx cur = list_insert cur (idx + k) TEMPLATE_STR"
    using Cons.prems by (simp add: insert_rereading_step_def)
  have "length (list_insert cur (idx + k) TEMPLATE_STR) = length original + Suc k"
    using Cons.prems by (simp add: length_list_insert)
  then have "insert_templates (list_insert cur (idx + k) TEMPLATE_STR) rest (Suc k)
             = fold (insert_rereading_step original) rest (list_insert cur (idx + k) TEMPLATE_STR)"
    by (rule Cons.IH)
  then show ?case by (simp add: step)
qed

lemma insert_templates_two_of_eight:
  assumes "length ls = 8"
  shows "insert_templates ls [2, 5] 0
         = take 2 ls @ TEMPLATE_STR # take 3 (drop 2 ls) @ TEMPLATE_STR # drop 5 ls"
proof -
  have a: "take 6 (take 2 ls @ TEMPLATE_STR # drop 2 ls)
           = take 2 ls @ TEMPLATE_STR # take 3 (drop 2 ls)"
    using assms by simp
  have b: "drop 6 (take 2 ls @ TEMPLATE_STR # drop 2 ls) = drop 5 ls"
    using assms by simp
  have "insert_templates ls [2, 5] 0
        = list_insert (list_insert ls 2 TEMPLATE_STR) 6 TEMPLATE_STR"
    by simp
  also have "\<dots> = take 6 (take 2 ls @ TEMPLATE_STR # drop 2 ls)
                   @ TEMPLATE_STR # drop 6 (take 2 ls @ TEMPLATE_STR # drop 2 ls)"
    unfolding list_insert_def ..
  finally show ?thesis
    unfolding a b by simp
qed

text \<open>
  C5. For every ascending plan and every line sequence, inserting the placeholder at
  \<open>idx + k\<close> for the \<open>k\<close>-th index \<open>idx\<close>, as the code does, gives the same sequence as
  inserting into a copy from the lowest index to the highest while reading the current
  length each time. Applied to the plan \<open>[2, 5]\<close> and eight lines, the result has ten
  lines with the placeholder at positions 2 and 6 and the original lines around them.
\<close>

theorem insert_templates_refines_rereading:
  "(sorted plan \<longrightarrow> insert_templates ls plan 0 = insert_rereading ls plan)
   \<and> (length ls = 8 \<longrightarrow>
        insert_templates ls [2, 5] 0
          = take 2 ls @ TEMPLATE_STR # take 3 (drop 2 ls) @ TEMPLATE_STR # drop 5 ls
        \<and> length (insert_templates ls [2, 5] 0) = 10
        \<and> insert_templates ls [2, 5] 0 ! 2 = TEMPLATE_STR
        \<and> insert_templates ls [2, 5] 0 ! 6 = TEMPLATE_STR)"
proof (intro conjI impI)
  assume "sorted plan"
  then have "sort plan = plan" by (rule sorted_sort_id)
  then show "insert_templates ls plan 0 = insert_rereading ls plan"
    using insert_templates_fold [of ls ls 0 plan] by (simp add: insert_rereading_def)
next
  assume l: "length ls = 8"
  show e: "insert_templates ls [2, 5] 0
        = take 2 ls @ TEMPLATE_STR # take 3 (drop 2 ls) @ TEMPLATE_STR # drop 5 ls"
    using l by (rule insert_templates_two_of_eight)
  show "length (insert_templates ls [2, 5] 0) = 10"
    unfolding e using l by simp
  show "insert_templates ls [2, 5] 0 ! 2 = TEMPLATE_STR"
    unfolding e using l by (simp add: nth_append)
  show "insert_templates ls [2, 5] 0 ! 6 = TEMPLATE_STR"
    unfolding e using l by (simp add: nth_append)
qed

theorem insert_templates_refines_rereading_witness:
  "sorted [2, 5 :: nat]
   \<and> length [''a'', ''b'', ''c'', ''d'', ''e'', ''f'', ''g'', ''h''] = 8
   \<and> insert_rereading [''a'', ''b'', ''c'', ''d'', ''e'', ''f'', ''g'', ''h''] [2, 5]
     = [''a'', ''b'', ''{{DOE content needed}}'', ''c'', ''d'', ''e'',
        ''{{DOE content needed}}'', ''f'', ''g'', ''h'']
   \<and> insert_templates [''a'', ''b'', ''c'', ''d'', ''e'', ''f'', ''g'', ''h''] [2, 5] 0
     = [''a'', ''b'', ''{{DOE content needed}}'', ''c'', ''d'', ''e'',
        ''{{DOE content needed}}'', ''f'', ''g'', ''h'']"
proof -
  have s: "sorted [2, 5 :: nat]" by simp
  have l: "length [''a'', ''b'', ''c'', ''d'', ''e'', ''f'', ''g'', ''h''] = 8" by simp
  have v: "insert_templates [''a'', ''b'', ''c'', ''d'', ''e'', ''f'', ''g'', ''h''] [2, 5] 0
     = [''a'', ''b'', ''{{DOE content needed}}'', ''c'', ''d'', ''e'',
        ''{{DOE content needed}}'', ''f'', ''g'', ''h'']"
    by code_simp
  show ?thesis
    using insert_templates_refines_rereading
            [of "[2, 5]" "[''a'', ''b'', ''c'', ''d'', ''e'', ''f'', ''g'', ''h'']"] s l v
    by simp
qed

subsection \<open>Writing back\<close>

lemma main_function_no_plan:
  assumes "insertion_points (get_page_text w t) = []"
  shows "main_function t w = w"
  using assms by (simp add: main_function_def Let_def)

lemma main_function_plan:
  assumes "insertion_points (get_page_text w t) \<noteq> []"
  shows "main_function t w
         = save t (join_nl (insert_templates (get_page_text w t)
                              (insertion_points (get_page_text w t)) 0))
             ''Inserted the DOE content needed template.'' w"
  using assms by (simp add: main_function_def Let_def)

text \<open>
  C9. The page is written back, with the fixed change comment, if and only if the scan
  gave at least one insertion point: then exactly one save is logged, of the joined
  lines with the placeholders. With an empty plan the wiki is left as it was: no text
  changes and no save is issued.
\<close>

theorem write_back_iff_insertion_point:
  "(insertion_points (get_page_text w t) = [] \<longrightarrow> main_function t w = w)
   \<and> (insertion_points (get_page_text w t) \<noteq> [] \<longrightarrow>
        save_log (main_function t w)
          = save_log w @ [(t, join_nl (insert_templates (get_page_text w t)
                                         (insertion_points (get_page_text w t)) 0),
                           ''Inserted the DOE content needed template.'')]
        \<and> page_text (main_function t w) t
          = join_nl (insert_templates (get_page_text w t)
                       (insertion_points (get_page_text w t)) 0))
   \<and> (save_log (main_function t w) \<noteq> save_log w
        \<longleftrightarrow> insertion_points (get_page_text w t) \<noteq> [])"
proof (cases "insertion_points (get_page_text w t) = []")
  case True
  then show ?thesis by (simp add: main_function_no_plan)
next
  case False
  then show ?thesis by (simp add: main_function_plan save_def)
qed

theorem write_back_iff_insertion_point_witness:
  "insertion_points (split_nl (''== Topic at DOE =='' @ [CHR 0x0A] @ ''== See Also =='')) \<noteq> []
   \<and> save_log (main_function ''Energy''
        \<lparr>page_text = (\<lambda>title. ''== Topic at DOE =='' @ [CHR 0x0A] @ ''== See Also ==''),
         save_log = []\<rparr>)
     = [(''Energy'',
         ''== Topic at DOE =='' @ [CHR 0x0A] @ ''{{DOE content needed}}'' @ [CHR 0x0A]
           @ ''== See Also =='',
         ''Inserted the DOE content needed template.'')]
   \<and> insertion_points (split_nl ''No headers here'') = []
   \<and> main_function ''Energy'' \<lparr>page_text = (\<lambda>title. ''No headers here''), save_log = []\<rparr>
     = \<lparr>page_text = (\<lambda>title. ''No headers here''), save_log = []\<rparr>"
proof -
  have p1: "insertion_points (split_nl (''== Topic at DOE =='' @ [CHR 0x0A] @ ''== See Also =='')) = [1]"
    by code_simp
  have j1: "join_nl (insert_templates
              (split_nl (''== Topic at DOE =='' @ [CHR 0x0A] @ ''== See Also =='')) [1] 0)
            = ''== Topic at DOE =='' @ [CHR 0x0A] @ ''{{DOE content needed}}'' @ [CHR 0x0A]
                @ ''== See Also =='' "
    by code_simp
  have p2: "insertion_points (split_nl ''No headers here'') = []"
    by code_simp
  show ?thesis
    using write_back_iff_insertion_point
            [of "\<lparr>page_text = (\<lambda>title. ''== Topic at DOE =='' @ [CHR 0x0A] @ ''== See Also ==''),
                  save_log = []\<rparr>" "''Energy''"]
          write_back_iff_insertion_point
            [of "\<lparr>page_text = (\<lambda>title. ''No headers here''), save_log = []\<rparr>" "''Energy''"]
          p1 j1 p2
    by (simp add: get_page_text_def)
qed

subsection \<open>The bookmark\<close>

lemma fold_run_step_fst:
  "fst (fold run_step titles (l, w)) = (if titles = [] then l else last titles)"
proof (induction titles arbitrary: l w)
  case Nil
  show ?case by simp
next
  case (Cons a titles)
  show ?case
    using Cons.IH [of a "main_function a w"] by (simp add: run_step_def)
qed

lemma page_text_set_page_start:
  "page_text (set_page_start ref new_start w) ref = new_start"
  by (simp add: set_page_start_def save_def)

lemma save_log_set_page_start:
  "save_log (set_page_start ref new_start w)
   = save_log w @ [(ref, new_start, ''Store new page from last execution.'')]"
  by (simp add: set_page_start_def save_def)

text \<open>
  C4. After a batch run the bookmark page holds the empty string if the listing gave
  strictly fewer titles than the batch size (also when it gave none), and otherwise
  the title of the last page of the batch; this is the last save of the run.
\<close>

theorem bookmark_after_run:
  "page_text (run pages_from ref w) ref
     = (if length (pages_from (get_page_start ref w)) < PAGES_TO_GO_THROUGH
        then [] else last (pages_from (get_page_start ref w)))
   \<and> last (save_log (run pages_from ref w))
     = (ref,
        if length (pages_from (get_page_start ref w)) < PAGES_TO_GO_THROUGH
        then [] else last (pages_from (get_page_start ref w)),
        ''Store new page from last execution.'')"
proof -
  let ?titles = "pages_from (get_page_start ref w)"
  show ?thesis
  proof (cases "length ?titles < PAGES_TO_GO_THROUGH")
    case True
    then show ?thesis
      by (simp add: run_def Let_def page_text_set_page_start save_log_set_page_start)
  next
    case False
    then have ne: "?titles \<noteq> []" by (auto simp: PAGES_TO_GO_THROUGH_def)
    have "fst (fold run_step ?titles ([], w)) = last ?titles"
      using ne by (simp add: fold_run_step_fst)
    with False show ?thesis
      by (simp add: run_def Let_def page_text_set_page_start save_log_set_page_start)
  qed
qed

subsection \<open>The shape of a title line\<close>

lemma match_tail_iff:
  "match_tail r \<noteq> None
   \<longleftrightarrow> r = [] \<or> r = '' '' \<or> r = [CHR 0x0A] \<or> r = [CHR '' '', CHR 0x0A]"
  by (cases r) (auto simp: match_tail_def at_dollar_def)

lemma match_g3_iff:
  "match_g3 k r \<noteq> None \<longleftrightarrow> (\<exists>k'. 0 < k' \<and> k' \<le> k \<and> match_tail (drop k' r) \<noteq> None)"
proof (induction k)
  case 0
  show ?case by simp
next
  case (Suc k)
  have "match_g3 (Suc k) r \<noteq> None
        \<longleftrightarrow> match_tail (drop (Suc k) r) \<noteq> None \<or> match_g3 k r \<noteq> None"
    by (simp split: option.splits)
  also have "\<dots> \<longleftrightarrow> (\<exists>k'. 0 < k' \<and> k' \<le> Suc k \<and> match_tail (drop k' r) \<noteq> None)"
    unfolding Suc.IH by (metis le_Suc_eq zero_less_Suc)
  finally show ?case .
qed

lemma match_g2_iff:
  "match_g2 j r \<noteq> None
   \<longleftrightarrow> (\<exists>j'\<le>j. match_g3 (length (takeWhile is_eq (drop j' r))) (drop j' r) \<noteq> None)"
proof (induction j)
  case 0
  show ?case by (simp split: option.splits)
next
  case (Suc j)
  have "match_g2 (Suc j) r \<noteq> None
        \<longleftrightarrow> match_g3 (length (takeWhile is_eq (drop (Suc j) r))) (drop (Suc j) r) \<noteq> None
            \<or> match_g2 j r \<noteq> None"
    by (simp split: option.splits)
  also have "\<dots> \<longleftrightarrow> (\<exists>j'\<le>Suc j.
                 match_g3 (length (takeWhile is_eq (drop j' r))) (drop j' r) \<noteq> None)"
    unfolding Suc.IH by (metis le_Suc_eq)
  finally show ?case .
qed

lemma match_g1_iff:
  "match_g1 i r \<noteq> None
   \<longleftrightarrow> (\<exists>i'. 0 < i' \<and> i' \<le> i
             \<and> match_g2 (length (takeWhile not_eq (drop i' r))) (drop i' r) \<noteq> None)"
proof (induction i)
  case 0
  show ?case by simp
next
  case (Suc i)
  have "match_g1 (Suc i) r \<noteq> None
        \<longleftrightarrow> match_g2 (length (takeWhile not_eq (drop (Suc i) r))) (drop (Suc i) r) \<noteq> None
            \<or> match_g1 i r \<noteq> None"
    by (simp split: option.splits)
  also have "\<dots> \<longleftrightarrow> (\<exists>i'. 0 < i' \<and> i' \<le> Suc i
                 \<and> match_g2 (length (takeWhile not_eq (drop i' r))) (drop i' r) \<noteq> None)"
    unfolding Suc.IH by (metis le_Suc_eq zero_less_Suc)
  finally show ?case .
qed

lemma detect_general_title_iff_match_g1:
  "detect_general_title line \<longleftrightarrow> match_g1 (length (takeWhile is_eq line)) line \<noteq> None"
  by (simp add: detect_general_title_def title_search_def split: option.splits)

lemma take_within_takeWhile:
  assumes "n \<le> length (takeWhile P xs)"
  shows "\<forall>x\<in>set (take n xs). P x"
proof -
  have "take n xs = take n (takeWhile P xs @ dropWhile P xs)" by simp
  also have "\<dots> = take n (takeWhile P xs)" using assms by (simp del: takeWhile_dropWhile_id)
  finally have "set (take n xs) \<subseteq> set (takeWhile P xs)" by (simp add: set_take_subset)
  then show ?thesis by (auto dest: set_takeWhileD)
qed

lemma take_eq_run:
  assumes "n \<le> length (takeWhile is_eq xs)"
  shows "take n xs = replicate n CHR ''=''"
proof -
  have le: "n \<le> length xs"
    using assms length_takeWhile_le [of is_eq xs] by (rule le_trans)
  have "\<forall>x\<in>set (take n xs). x = CHR ''=''"
    using take_within_takeWhile [OF assms] by (simp add: is_eq_def)
  then have "replicate (length (take n xs)) CHR ''='' = take n xs"
    by (rule replicate_length_same)
  moreover have "length (take n xs) = n" using le by simp
  ultimately show ?thesis by simp
qed

lemma takeWhile_is_eq_run:
  "a \<le> length (takeWhile is_eq (replicate a CHR ''='' @ rest))"
  by (induction a) (simp_all add: is_eq_def)

lemma takeWhile_not_eq_text:
  assumes "CHR ''='' \<notin> set t" and "0 < b"
  shows "takeWhile not_eq (t @ replicate b CHR ''='' @ rest) = t"
proof -
  obtain b' where b: "b = Suc b'" using assms(2) by (cases b) auto
  have "\<forall>c\<in>set t. not_eq c" using assms(1) by (auto simp: not_eq_def)
  then show ?thesis by (simp add: takeWhile_append2 b not_eq_def)
qed

lemma title_shape:
  "detect_general_title line
   \<longleftrightarrow> (\<exists>a t b r. 0 < a \<and> 0 < b \<and> CHR ''='' \<notin> set t \<and> match_tail r \<noteq> None
          \<and> line = replicate a CHR ''='' @ t @ replicate b CHR ''='' @ r)"
  (is "?L \<longleftrightarrow> ?R")
proof
  assume ?L
  then obtain i where i: "0 < i" "i \<le> length (takeWhile is_eq line)"
    and g2: "match_g2 (length (takeWhile not_eq (drop i line))) (drop i line) \<noteq> None"
    unfolding detect_general_title_iff_match_g1 match_g1_iff by blast
  let ?r1 = "drop i line"
  from g2 obtain j where j: "j \<le> length (takeWhile not_eq ?r1)"
    and g3: "match_g3 (length (takeWhile is_eq (drop j ?r1))) (drop j ?r1) \<noteq> None"
    unfolding match_g2_iff by blast
  let ?r2 = "drop j ?r1"
  from g3 obtain k where k: "0 < k" "k \<le> length (takeWhile is_eq ?r2)"
    and tl: "match_tail (drop k ?r2) \<noteq> None"
    unfolding match_g3_iff by blast
  have t: "CHR ''='' \<notin> set (take j ?r1)"
    using take_within_takeWhile [OF j] by (auto simp: not_eq_def)
  have e1: "take i line @ ?r1 = line" by (rule append_take_drop_id)
  have e2: "take j ?r1 @ ?r2 = ?r1" by (rule append_take_drop_id)
  have e3: "take k ?r2 @ drop k ?r2 = ?r2" by (rule append_take_drop_id)
  have "line = take i line @ take j ?r1 @ take k ?r2 @ drop k ?r2"
    by (simp only: e3 e2 e1)
  then have "line = replicate i CHR ''='' @ take j ?r1 @ replicate k CHR ''='' @ drop k ?r2"
    by (simp only: take_eq_run [OF i(2)] take_eq_run [OF k(2)])
  with i(1) k(1) t tl show ?R by blast
next
  assume ?R
  then obtain a t b r where a: "0 < a" and b: "0 < b" and t: "CHR ''='' \<notin> set t"
    and tl: "match_tail r \<noteq> None"
    and line: "line = replicate a CHR ''='' @ t @ replicate b CHR ''='' @ r"
    by blast
  have d1: "drop a line = t @ replicate b CHR ''='' @ r" by (simp add: line)
  have tw: "length (takeWhile not_eq (drop a line)) = length t"
    unfolding d1 using takeWhile_not_eq_text [OF t b] by simp
  have d2: "drop (length t) (drop a line) = replicate b CHR ''='' @ r" by (simp add: d1)
  have d3: "drop b (replicate b CHR ''='' @ r) = r" by simp
  have "match_g3 (length (takeWhile is_eq (replicate b CHR ''='' @ r)))
          (replicate b CHR ''='' @ r) \<noteq> None"
    unfolding match_g3_iff using b takeWhile_is_eq_run [of b r] tl d3 by metis
  then have "match_g2 (length (takeWhile not_eq (drop a line))) (drop a line) \<noteq> None"
    unfolding match_g2_iff tw using d2 by (metis order_refl)
  moreover have "a \<le> length (takeWhile is_eq line)"
    unfolding line by (rule takeWhile_is_eq_run)
  ultimately show ?L
    unfolding detect_general_title_iff_match_g1 match_g1_iff using a by blast
qed

lemma match_tail_no_eq:
  assumes "match_tail r \<noteq> None"
  shows "CHR ''='' \<notin> set r"
  using assms unfolding match_tail_iff by auto

lemma after_last_eq:
  assumes "CHR ''='' \<notin> set w"
  shows "rev (takeWhile not_eq (rev (x @ CHR ''='' # w))) = w"
proof -
  have na: "\<And>c. c \<in> set (rev w) \<Longrightarrow> not_eq c"
    using assms by (auto simp: not_eq_def)
  have "takeWhile not_eq (rev w @ CHR ''='' # rev x)
        = rev w @ takeWhile not_eq (CHR ''='' # rev x)"
    by (rule takeWhile_append2) (rule na)
  then have "takeWhile not_eq (rev w @ CHR ''='' # rev x) = rev w"
    by (simp add: not_eq_def)
  then show ?thesis by simp
qed

lemma run_ends_with_eq:
  assumes "0 < b"
  shows "replicate b CHR ''='' = replicate (b - 1) CHR ''='' @ [CHR ''='']"
proof -
  obtain b' where "b = Suc b'" using assms by (cases b) auto
  then show ?thesis by (simp add: replicate_append_same)
qed

lemma title_tail_unique:
  assumes "0 < b" and "0 < b'" and "CHR ''='' \<notin> set w" and "CHR ''='' \<notin> set w'"
    and "x @ replicate b CHR ''='' @ w = x' @ replicate b' CHR ''='' @ w'"
  shows "w = w'"
proof -
  have l: "x @ replicate b CHR ''='' @ w = (x @ replicate (b - 1) CHR ''='') @ CHR ''='' # w"
    using run_ends_with_eq [OF assms(1)] by simp
  have r: "x' @ replicate b' CHR ''='' @ w' = (x' @ replicate (b' - 1) CHR ''='') @ CHR ''='' # w'"
    using run_ends_with_eq [OF assms(2)] by simp
  have "rev (takeWhile not_eq (rev ((x @ replicate (b - 1) CHR ''='') @ CHR ''='' # w))) = w"
    by (rule after_last_eq [OF assms(3)])
  then have lw: "rev (takeWhile not_eq (rev (x @ replicate b CHR ''='' @ w))) = w"
    by (simp only: l [symmetric])
  have "rev (takeWhile not_eq (rev ((x' @ replicate (b' - 1) CHR ''='') @ CHR ''='' # w'))) = w'"
    by (rule after_last_eq [OF assms(4)])
  then have rw: "rev (takeWhile not_eq (rev (x' @ replicate b' CHR ''='' @ w'))) = w'"
    by (simp only: r [symmetric])
  show ?thesis using lw rw by (simp only: assms(5))
qed

lemma title_with_trailing_whitespace:
  assumes "0 < a" and "0 < b" and "CHR ''='' \<notin> set t" and "\<forall>c\<in>set ws. is_space c"
  shows "detect_general_title (replicate a CHR ''='' @ t @ replicate b CHR ''='' @ ws)
         \<longleftrightarrow> match_tail ws \<noteq> None"
proof
  assume "match_tail ws \<noteq> None"
  with assms(1-3) show "detect_general_title (replicate a CHR ''='' @ t @ replicate b CHR ''='' @ ws)"
    unfolding title_shape by blast
next
  assume "detect_general_title (replicate a CHR ''='' @ t @ replicate b CHR ''='' @ ws)"
  then obtain a2 t2 b2 r where b2: "0 < b2" and tl: "match_tail r \<noteq> None"
    and e: "replicate a CHR ''='' @ t @ replicate b CHR ''='' @ ws
            = replicate a2 CHR ''='' @ t2 @ replicate b2 CHR ''='' @ r"
    unfolding title_shape by blast
  have ws: "CHR ''='' \<notin> set ws" using assms(4) eq_not_space by blast
  have "(replicate a CHR ''='' @ t) @ replicate b CHR ''='' @ ws
        = (replicate a2 CHR ''='' @ t2) @ replicate b2 CHR ''='' @ r"
    using e by simp
  then have "ws = r"
    using title_tail_unique [OF assms(2) b2 ws match_tail_no_eq [OF tl]] by blast
  with tl show "match_tail ws \<noteq> None" by simp
qed

text \<open>
  C3, as amended. A string matches the title pattern if and only if it is a run of one
  or more \<^verbatim>\<open>=\<close>, then text without \<^verbatim>\<open>=\<close> (possibly empty), then a run of one or more
  \<^verbatim>\<open>=\<close>, then at most one space, then at most one final line feed (which a line of a
  page split at line feeds never has). So a header followed by whitespace matches only
  if that whitespace is empty, one space, one line feed, or one space and a line feed:
  two spaces or a tab after the header make the line fail the pattern.
\<close>

theorem title_pattern_shape:
  "(detect_general_title line
    \<longleftrightarrow> (\<exists>a t b sp nl. 0 < a \<and> 0 < b \<and> CHR ''='' \<notin> set t
           \<and> (sp = [] \<or> sp = '' '') \<and> (nl = [] \<or> nl = [CHR 0x0A])
           \<and> line = replicate a CHR ''='' @ t @ replicate b CHR ''='' @ sp @ nl))
   \<and> (0 < ha \<and> 0 < hb \<and> CHR ''='' \<notin> set ht \<and> (\<forall>c\<in>set ws. is_space c) \<longrightarrow>
        (detect_general_title (replicate ha CHR ''='' @ ht @ replicate hb CHR ''='' @ ws)
         \<longleftrightarrow> ws = [] \<or> ws = '' '' \<or> ws = [CHR 0x0A] \<or> ws = [CHR '' '', CHR 0x0A]))"
proof (intro conjI impI)
  have tails: "match_tail r \<noteq> None
        \<longleftrightarrow> (\<exists>sp nl. (sp = [] \<or> sp = '' '') \<and> (nl = [] \<or> nl = [CHR 0x0A]) \<and> r = sp @ nl)"
    for r
    unfolding match_tail_iff by auto
  show "detect_general_title line
    \<longleftrightarrow> (\<exists>a t b sp nl. 0 < a \<and> 0 < b \<and> CHR ''='' \<notin> set t
           \<and> (sp = [] \<or> sp = '' '') \<and> (nl = [] \<or> nl = [CHR 0x0A])
           \<and> line = replicate a CHR ''='' @ t @ replicate b CHR ''='' @ sp @ nl)"
    unfolding title_shape tails by blast
next
  assume "0 < ha \<and> 0 < hb \<and> CHR ''='' \<notin> set ht \<and> (\<forall>c\<in>set ws. is_space c)"
  then show "detect_general_title (replicate ha CHR ''='' @ ht @ replicate hb CHR ''='' @ ws)
         \<longleftrightarrow> ws = [] \<or> ws = '' '' \<or> ws = [CHR 0x0A] \<or> ws = [CHR '' '', CHR 0x0A]"
    using title_with_trailing_whitespace [of ha hb ht ws] unfolding match_tail_iff by blast
qed

theorem title_pattern_shape_witness:
  "0 < (2::nat) \<and> CHR ''='' \<notin> set '' See Also '' \<and> is_space CHR '' ''
   \<and> detect_general_title (replicate 2 CHR ''='' @ '' See Also '' @ replicate 2 CHR ''='' @ '' '')
   \<and> \<not> detect_general_title (replicate 2 CHR ''='' @ '' See Also '' @ replicate 2 CHR ''='' @ ''  '')"
proof -
  have h1: "0 < (2::nat) \<and> 0 < (2::nat) \<and> CHR ''='' \<notin> set '' See Also ''
            \<and> (\<forall>c\<in>set '' ''. is_space c)"
    by (simp add: is_space_def)
  have h2: "0 < (2::nat) \<and> 0 < (2::nat) \<and> CHR ''='' \<notin> set '' See Also ''
            \<and> (\<forall>c\<in>set ''  ''. is_space c)"
    by (simp add: is_space_def)
  have one: "detect_general_title
               (replicate 2 CHR ''='' @ '' See Also '' @ replicate 2 CHR ''='' @ '' '')"
    using title_pattern_shape [where ha = 2 and hb = 2 and ht = "'' See Also ''" and ws = "'' ''", THEN conjunct2] h1
    by simp
  have two: "\<not> detect_general_title
               (replicate 2 CHR ''='' @ '' See Also '' @ replicate 2 CHR ''='' @ ''  '')"
    using title_pattern_shape [where ha = 2 and hb = 2 and ht = "'' See Also ''" and ws = "''  ''", THEN conjunct2] h2
    by simp
  show ?thesis using h1 one two by simp
qed

text \<open>
  The claim as the specification states it, that any amount of trailing whitespace is
  accepted, fails: the header \<^verbatim>\<open>"== See Also =="\<close> matches, but not with two spaces
  or with a tab after it.
\<close>

theorem trailing_whitespace_counterexample:
  "detect_general_title ''== See Also ==''
   \<and> \<not> detect_general_title ''== See Also ==  ''
   \<and> \<not> detect_general_title (''== See Also =='' @ [CHR 0x09])"
  by code_simp

end
